theory Spec2Isabelle
  imports Complex_Main
begin

section \<open>The payload generator \<^verbatim>\<open>scripts/generate_assets_payload.py\<close>\<close>

subsection \<open>The random source\<close>

text \<open>
  The script draws from Python's module-level generator. The model threads the generator
  through every call as an explicit state: the infinite sequence of raw draws that are still
  to come. A draw that must fall below \<open>n\<close> is the raw draw modulo \<open>n\<close>; since the raw
  draws are arbitrary natural numbers, every sequence of indices Python can produce is
  produced by some state, and no other. All theorems below hold for every state.
\<close>

type_synonym rng = "nat \<Rightarrow> nat"

definition draw :: "rng \<Rightarrow> nat \<times> rng" where
  "draw g = (g 0, \<lambda>i. g (Suc i))"

text \<open>
  \<^verbatim>\<open>random.choices(population, k=k)\<close>: \<open>k\<close> draws with replacement, each an index into
  the population. (Python raises on an empty population; the script only passes the two
  non-empty literals below.)
\<close>

fun choices :: "'a list \<Rightarrow> nat \<Rightarrow> rng \<Rightarrow> 'a list \<times> rng" where
  "choices population 0 g = ([], g)"
| "choices population (Suc k) g =
     (let (r, g1) = draw g;
          (rest, g2) = choices population k g1
      in (population ! (r mod length population) # rest, g2))"

text \<open>
  \<^verbatim>\<open>random.randint(a, b)\<close>: \<open>a\<close> plus a draw below \<open>b - a + 1\<close>. (Python raises when
  \<open>b < a\<close>; the script calls it with 10 and 120 only.)
\<close>

definition randint :: "nat \<Rightarrow> nat \<Rightarrow> rng \<Rightarrow> nat \<times> rng" where
  "randint a b g = (let (r, g1) = draw g in (a + r mod (b - a + 1), g1))"

subsection \<open>Strings\<close>

text \<open>
  A Python \<^verbatim>\<open>str\<close> is modelled as a \<open>string\<close> whose characters are the code points
  below 256. \<^verbatim>\<open>str.isspace\<close> on one such code point: the ASCII white space, the four
  separators 0x1C to 0x1F, NEL and the no-break space.
\<close>

definition py_isspace :: "char \<Rightarrow> bool" where
  "py_isspace c = (of_char c \<in> set [9, 10, 11, 12, 13, 28, 29, 30, 31, 32, 133, 160 :: nat])"

definition lstrip :: "string \<Rightarrow> string" where
  "lstrip s = dropWhile py_isspace s"

definition rstrip :: "string \<Rightarrow> string" where
  "rstrip s = rev (dropWhile py_isspace (rev s))"

definition strip :: "string \<Rightarrow> string" where
  "strip s = rstrip (lstrip s)"

definition ascii_lowercase :: string where
  "ascii_lowercase = ''abcdefghijklmnopqrstuvwxyz''"

definition ascii_uppercase :: string where
  "ascii_uppercase = ''ABCDEFGHIJKLMNOPQRSTUVWXYZ''"

definition ascii_letters :: string where
  "ascii_letters = ascii_lowercase @ ascii_uppercase"

definition digits :: string where
  "digits = ''0123456789''"

subsection \<open>The two random fields\<close>

definition hex_alphabet :: string where
  "hex_alphabet = ''0123456789abcdef''"

definition generate_hex_checksum :: "rng \<Rightarrow> string \<times> rng" where
  "generate_hex_checksum g = choices hex_alphabet 64 g"

definition display_alphabet :: string where
  "display_alphabet = ascii_letters @ digits @ '' ''"

definition generate_display :: "rng \<Rightarrow> string \<times> rng" where
  "generate_display g =
     (let (len, g1) = randint 10 120 g;
          (cs, g2) = choices display_alphabet len g1
      in (strip cs, g2))"

text \<open>The two intermediate values of \<^verbatim>\<open>generate_display\<close>: the sampled length and the
  string before \<^verbatim>\<open>strip\<close>.\<close>

definition display_length :: "rng \<Rightarrow> nat" where
  "display_length g = fst (randint 10 120 g)"

definition display_raw :: "rng \<Rightarrow> string" where
  "display_raw g = fst (choices display_alphabet (display_length g) (snd (randint 10 120 g)))"

subsection \<open>Values of the data model\<close>

text \<open>
  The script builds its document from three kinds of Python value only: \<^verbatim>\<open>str\<close>,
  \<^verbatim>\<open>list\<close> and \<^verbatim>\<open>dict\<close> with string keys. A dictionary keeps its keys in insertion
  order, which the serializer follows, so it is an association list.
\<close>

datatype json = JStr string | JList "json list" | JObj "(string \<times> json) list"

text \<open>\<^verbatim>\<open>d[k] = v\<close>: an existing key keeps its place and takes the new value, a new key goes last.\<close>

fun dict_set :: "string \<Rightarrow> 'v \<Rightarrow> (string \<times> 'v) list \<Rightarrow> (string \<times> 'v) list" where
  "dict_set k v [] = [(k, v)]"
| "dict_set k v ((k1, v1) # d) = (if k1 = k then (k, v) # d else (k1, v1) # dict_set k v d)"

text \<open>A dictionary comprehension stores its pairs one after the other.\<close>

definition dict_of_pairs :: "(string \<times> 'v) list \<Rightarrow> (string \<times> 'v) list" where
  "dict_of_pairs ps = foldl (\<lambda>d (k, v). dict_set k v d) [] ps"

fun dict_get :: "(string \<times> 'v) list \<Rightarrow> string \<Rightarrow> 'v option" where
  "dict_get [] k = None"
| "dict_get ((k1, v1) # d) k = (if k1 = k then Some v1 else dict_get d k)"

text \<open>Reading a field of a value: \<^verbatim>\<open>v[k]\<close>, with \<open>None\<close> where Python raises.\<close>

fun field :: "json \<Rightarrow> string \<Rightarrow> json option" where
  "field (JObj d) k = dict_get d k"
| "field _ k = None"

subsection \<open>Integers as text\<close>

definition digit_char :: "nat \<Rightarrow> char" where
  "digit_char d = ''0123456789'' ! d"

fun str_nat :: "nat \<Rightarrow> string" where
  "str_nat n = (if n < 10 then [digit_char n] else str_nat (n div 10) @ [digit_char (n mod 10)])"

declare str_nat.simps [simp del]

text \<open>\<^verbatim>\<open>str(i)\<close>, which is also what \<^verbatim>\<open>f"{i}"\<close> inserts.\<close>

definition str_int :: "int \<Rightarrow> string" where
  "str_int i = (if i < 0 then CHR ''-'' # str_nat (nat (- i)) else str_nat (nat i))"

text \<open>\<^verbatim>\<open>range(n)\<close>: empty when \<open>n \<le> 0\<close>.\<close>

definition py_range :: "int \<Rightarrow> int list" where
  "py_range n = map int [0..<nat n]"

text \<open>\<^verbatim>\<open>s * n\<close> on a string: empty when \<open>n \<le> 0\<close>.\<close>

definition str_mul :: "string \<Rightarrow> int \<Rightarrow> string" where
  "str_mul s n = concat (replicate (nat n) s)"

subsection \<open>The metadata of each size\<close>

definition generate_extra :: "string \<Rightarrow> json" where
  "generate_extra sz =
    (if sz = ''none'' then JObj []
     else if sz = ''small'' then
       JObj [(''source'', JStr ''test_script''),
             (''version'', JStr ''1.0''),
             (''tags'', JList [JStr ''test'', JStr ''generated''])]
     else if sz = ''medium'' then
       JObj [(''source'', JStr ''test_script''),
             (''version'', JStr ''1.0''),
             (''tags'', JList [JStr ''test'', JStr ''generated'', JStr ''medium'']),
             (''metadata'',
                JObj [(''created_by'', JStr ''test_user''),
                      (''project'', JStr ''asset_testing''),
                      (''environment'', JStr ''development'')]),
             (''description'', JStr (str_mul ''A'' 200))]
     else if sz = ''large'' then
       JObj [(''source'', JStr ''test_script''),
             (''version'', JStr ''1.0''),
             (''tags'',
                JList ([JStr ''test'', JStr ''generated'', JStr ''large'']
                       @ map (\<lambda>i. JStr (''tag_'' @ str_int i)) (py_range 20))),
             (''metadata'',
                JObj [(''created_by'', JStr ''test_user''),
                      (''project'', JStr ''asset_testing''),
                      (''environment'', JStr ''development''),
                      (''config'',
                         JObj (dict_of_pairs
                           (map (\<lambda>i. (''key_'' @ str_int i, JStr (''value_'' @ str_int i)))
                                (py_range 50))))]),
             (''description'', JStr (str_mul ''B'' 500)),
             (''notes'', JStr (str_mul ''C'' 300))]
     else JObj [])"

subsection \<open>One asset, and the batch\<close>

definition generate_asset_payload :: "string \<Rightarrow> rng \<Rightarrow> json \<times> rng" where
  "generate_asset_payload extra_size g =
     (let (checksum, g1) = generate_hex_checksum g;
          (display, g2) = generate_display g1
      in (JObj [(''checksum'', JStr checksum),
                (''display'', JStr display),
                (''extra'', generate_extra extra_size)], g2))"

text \<open>The list comprehension \<^verbatim>\<open>[generate_asset_payload(extra_size) for _ in range(n)]\<close>.\<close>

fun asset_payloads :: "nat \<Rightarrow> string \<Rightarrow> rng \<Rightarrow> json list \<times> rng" where
  "asset_payloads 0 extra_size g = ([], g)"
| "asset_payloads (Suc k) extra_size g =
     (let (a, g1) = generate_asset_payload extra_size g;
          (rest, g2) = asset_payloads k extra_size g1
      in (a # rest, g2))"

definition generate_batch_payload :: "int \<Rightarrow> string \<Rightarrow> rng \<Rightarrow> json \<times> rng" where
  "generate_batch_payload num_assets extra_size g =
     (let (assets, g1) = asset_payloads (length (py_range num_assets)) extra_size g
      in (JObj [(''assets'', JList assets)], g1))"

subsection \<open>The size report\<close>

text \<open>
  \<^verbatim>\<open>format_size\<close> compares with \<^verbatim>\<open>1024.0\<close> and divides by it, so from the first
  division on the value is a binary floating-point number. Dividing by a power of two is
  exact, and so is the conversion of an integer below \<open>2 ^ 53\<close>: on those inputs the float
  is the rational number below, which is what the model computes with.

  \<^verbatim>\<open>f"{x:.2f}"\<close> prints the decimal with two fractional digits that is nearest to the
  exact value of \<open>x\<close>, a tie going to the even last digit, with a minus sign for a negative
  \<open>x\<close>.
\<close>

definition round_half_even :: "rat \<Rightarrow> int" where
  "round_half_even x =
     (let f = \<lfloor>x\<rfloor>; d = x - of_int f
      in if d < 1 / 2 then f else if 1 / 2 < d then f + 1 else if even f then f else f + 1)"

definition zfill2 :: "nat \<Rightarrow> string" where
  "zfill2 n = (if n < 10 then CHR ''0'' # str_nat n else str_nat n)"

text \<open>The displayed magnitude, counted in hundredths.\<close>

definition hundredths :: "rat \<Rightarrow> nat" where
  "hundredths x = nat (round_half_even (\<bar>x\<bar> * 100))"

definition fmt_2f :: "rat \<Rightarrow> string" where
  "fmt_2f x =
     (let h = hundredths x
      in (if x < 0 then ''-'' else []) @ str_nat (h div 100) @ ''.'' @ zfill2 (h mod 100))"

definition unit_names :: "string list" where
  "unit_names = [''B'', ''KB'', ''MB'', ''GB'']"

text \<open>The loop over the units, with \<^verbatim>\<open>TB\<close> after the last of them.\<close>

fun format_size_loop :: "rat \<Rightarrow> string list \<Rightarrow> string" where
  "format_size_loop size_bytes [] = fmt_2f size_bytes @ '' TB''"
| "format_size_loop size_bytes (unit # units) =
     (if size_bytes < 1024 then fmt_2f size_bytes @ '' '' @ unit
      else format_size_loop (size_bytes / 1024) units)"

definition format_size :: "int \<Rightarrow> string" where
  "format_size size_bytes = format_size_loop (of_int size_bytes) unit_names"

subsection \<open>Serialization: \<^verbatim>\<open>json.dumps(payload, indent=2)\<close>\<close>

definition dquote :: char where
  "dquote = CHR 0x22"

definition bslash :: char where
  "bslash = CHR 0x5C"

definition newline :: char where
  "newline = CHR 0x0A"

definition hex4 :: "nat \<Rightarrow> string" where
  "hex4 n = [hex_alphabet ! (n div 4096 mod 16), hex_alphabet ! (n div 256 mod 16),
             hex_alphabet ! (n div 16 mod 16), hex_alphabet ! (n mod 16)]"

text \<open>
  The encoder's default \<^verbatim>\<open>ensure_ascii=True\<close>: the two-character escapes, every other
  character outside \<^verbatim>\<open>' '..'~'\<close> as \<^verbatim>\<open>\uXXXX\<close>.
\<close>

definition escape_char :: "char \<Rightarrow> string" where
  "escape_char c =
    (if c = bslash then [bslash, bslash]
     else if c = dquote then [bslash, dquote]
     else if c = CHR 0x08 then [bslash, CHR ''b'']
     else if c = CHR 0x0C then [bslash, CHR ''f'']
     else if c = CHR 0x0A then [bslash, CHR ''n'']
     else if c = CHR 0x0D then [bslash, CHR ''r'']
     else if c = CHR 0x09 then [bslash, CHR ''t'']
     else if 32 \<le> (of_char c :: nat) \<and> (of_char c :: nat) \<le> 126 then [c]
     else [bslash, CHR ''u''] @ hex4 (of_char c))"

definition encode_string :: "string \<Rightarrow> string" where
  "encode_string s = [dquote] @ concat (map escape_char s) @ [dquote]"

text \<open>\<^verbatim>\<open>'\n' + ' ' * (indent * level)\<close> with \<^verbatim>\<open>indent = 2\<close>.\<close>

definition newline_indent :: "nat \<Rightarrow> string" where
  "newline_indent level = newline # replicate (2 * level) CHR '' ''"

text \<open>The chunks of a container, the item separator between two of them.\<close>

fun join_items :: "string \<Rightarrow> string list \<Rightarrow> string" where
  "join_items sep [] = []"
| "join_items sep [x] = x"
| "join_items sep (x # y # ys) = x @ sep @ join_items sep (y # ys)"

fun encode :: "nat \<Rightarrow> json \<Rightarrow> string" where
  "encode level (JStr s) = encode_string s"
| "encode level (JList xs) =
     (if xs = [] then ''[]''
      else ''['' @ newline_indent (level + 1)
           @ join_items ('','' @ newline_indent (level + 1)) (map (encode (level + 1)) xs)
           @ newline_indent level @ '']'')"
| "encode level (JObj d) =
     (if d = [] then ''{}''
      else ''{'' @ newline_indent (level + 1)
           @ join_items ('','' @ newline_indent (level + 1))
               (map (\<lambda>kv. encode_string (fst kv) @ '': '' @ encode (level + 1) (snd kv)) d)
           @ newline_indent level @ ''}'')"

definition json_dumps :: "json \<Rightarrow> string" where
  "json_dumps v = encode 0 v"

text \<open>\<^verbatim>\<open>s.encode("utf-8")\<close> for code points below 256: one byte, or two from 128 on.\<close>

definition utf8_encode :: "string \<Rightarrow> string" where
  "utf8_encode s =
     concat (map (\<lambda>c. if (of_char c :: nat) < 128 then [c]
                       else [char_of (192 + (of_char c :: nat) div 64),
                             char_of (128 + (of_char c :: nat) mod 64)]) s)"

subsection \<open>Reading the count: \<^verbatim>\<open>int(sys.argv[1])\<close>\<close>









subsection \<open>The program\<close>






subsection \<open>Reading the output back\<close>

text \<open>
  Modelled from the spec: the parser of the round-trip property. The repository only
  writes the document and has no reader of its own; the reader below is the JSON grammar
  for the three kinds of value of the data model (a string with its escapes, an array, an
  object), with white space allowed between the tokens. An object is read into a
  dictionary, key by key. The recursion on the nesting is bounded by a fuel, for which the
  length of the text is taken.
\<close>

definition json_ws :: "char \<Rightarrow> bool" where
  "json_ws c = (c = CHR '' '' \<or> c = CHR 0x09 \<or> c = CHR 0x0A \<or> c = CHR 0x0D)"

definition skip_ws :: "string \<Rightarrow> string" where
  "skip_ws s = dropWhile json_ws s"

definition hex_value :: "char \<Rightarrow> nat option" where
  "hex_value c =
     (let n = (of_char c :: nat)
      in if 48 \<le> n \<and> n \<le> 57 then Some (n - 48)
         else if 97 \<le> n \<and> n \<le> 102 then Some (n - 87)
         else if 65 \<le> n \<and> n \<le> 70 then Some (n - 55)
         else None)"

definition hex4_value :: "char \<Rightarrow> char \<Rightarrow> char \<Rightarrow> char \<Rightarrow> nat option" where
  "hex4_value h1 h2 h3 h4 =
     (case hex_value h1 of None \<Rightarrow> None | Some a \<Rightarrow>
      case hex_value h2 of None \<Rightarrow> None | Some b \<Rightarrow>
      case hex_value h3 of None \<Rightarrow> None | Some c \<Rightarrow>
      case hex_value h4 of None \<Rightarrow> None | Some d \<Rightarrow>
        Some (((a * 16 + b) * 16 + c) * 16 + d))"

definition unescape :: "char \<Rightarrow> char option" where
  "unescape e =
     (if e = dquote then Some dquote
      else if e = bslash then Some bslash
      else if e = CHR ''/'' then Some CHR ''/''
      else if e = CHR ''b'' then Some (CHR 0x08)
      else if e = CHR ''f'' then Some (CHR 0x0C)
      else if e = CHR ''n'' then Some (CHR 0x0A)
      else if e = CHR ''r'' then Some (CHR 0x0D)
      else if e = CHR ''t'' then Some (CHR 0x09)
      else None)"

definition prepend :: "char \<Rightarrow> (string \<times> string) option \<Rightarrow> (string \<times> string) option" where
  "prepend c r = (case r of None \<Rightarrow> None | Some (s, rest) \<Rightarrow> Some (c # s, rest))"

text \<open>The characters of a string up to its closing quote, and the text after it.\<close>

fun parse_chars :: "string \<Rightarrow> (string \<times> string) option" where
  "parse_chars [] = None"
| "parse_chars (c # cs) =
     (if c = dquote then Some ([], cs)
      else if c = bslash then
        (case cs of
           [] \<Rightarrow> None
         | e # r \<Rightarrow>
             if e = CHR ''u'' then
               (case r of
                  h1 # h2 # h3 # h4 # r' \<Rightarrow>
                    (case hex4_value h1 h2 h3 h4 of
                       None \<Rightarrow> None
                     | Some n \<Rightarrow> if n < 256 then prepend (char_of n) (parse_chars r') else None)
                | _ \<Rightarrow> None)
             else
               (case unescape e of
                  None \<Rightarrow> None
                | Some d \<Rightarrow> prepend d (parse_chars r)))
      else if (of_char c :: nat) < 32 then None
      else prepend c (parse_chars cs))"

fun parse_value :: "nat \<Rightarrow> string \<Rightarrow> (json \<times> string) option"
  and parse_elements :: "nat \<Rightarrow> string \<Rightarrow> (json list \<times> string) option"
  and parse_members :: "nat \<Rightarrow> string \<Rightarrow> ((string \<times> json) list \<times> string) option"
where
  "parse_value 0 s = None"
| "parse_value (Suc n) s =
     (case skip_ws s of
        [] \<Rightarrow> None
      | c # cs \<Rightarrow>
          if c = dquote then
            (case parse_chars cs of None \<Rightarrow> None | Some (t, r) \<Rightarrow> Some (JStr t, r))
          else if c = CHR ''['' then
            (case skip_ws cs of
               [] \<Rightarrow> None
             | c1 # r1 \<Rightarrow>
                 if c1 = CHR '']'' then Some (JList [], r1)
                 else (case parse_elements n cs of
                         None \<Rightarrow> None
                       | Some (vs, r) \<Rightarrow> Some (JList vs, r)))
          else if c = CHR ''{'' then
            (case skip_ws cs of
               [] \<Rightarrow> None
             | c1 # r1 \<Rightarrow>
                 if c1 = CHR ''}'' then Some (JObj [], r1)
                 else (case parse_members n cs of
                         None \<Rightarrow> None
                       | Some (kvs, r) \<Rightarrow> Some (JObj (dict_of_pairs kvs), r)))
          else None)"
| "parse_elements 0 s = None"
| "parse_elements (Suc n) s =
     (case parse_value n s of
        None \<Rightarrow> None
      | Some (v, r) \<Rightarrow>
          (case skip_ws r of
             [] \<Rightarrow> None
           | c # r1 \<Rightarrow>
               if c = CHR '','' then
                 (case parse_elements n r1 of
                    None \<Rightarrow> None
                  | Some (vs, r2) \<Rightarrow> Some (v # vs, r2))
               else if c = CHR '']'' then Some ([v], r1)
               else None))"
| "parse_members 0 s = None"
| "parse_members (Suc n) s =
     (case skip_ws s of
        [] \<Rightarrow> None
      | c # cs \<Rightarrow>
          if c \<noteq> dquote then None
          else
            (case parse_chars cs of
               None \<Rightarrow> None
             | Some (k, r) \<Rightarrow>
                 (case skip_ws r of
                    [] \<Rightarrow> None
                  | c1 # r1 \<Rightarrow>
                      if c1 \<noteq> CHR '':'' then None
                      else
                        (case parse_value n r1 of
                           None \<Rightarrow> None
                         | Some (v, r2) \<Rightarrow>
                             (case skip_ws r2 of
                                [] \<Rightarrow> None
                              | c2 # r3 \<Rightarrow>
                                  if c2 = CHR '','' then
                                    (case parse_members n r3 of
                                       None \<Rightarrow> None
                                     | Some (kvs, r4) \<Rightarrow> Some ((k, v) # kvs, r4))
                                  else if c2 = CHR ''}'' then Some ([(k, v)], r3)
                                  else None)))))"

definition json_loads :: "string \<Rightarrow> json option" where
  "json_loads s =
     (case parse_value (length s) s of
        None \<Rightarrow> None
      | Some (v, rest) \<Rightarrow> if skip_ws rest = [] then Some v else None)"

text \<open>The fuel that reading a value back needs: one unit for each value and each item.\<close>

fun need :: "json \<Rightarrow> nat" where
  "need (JStr s) = 1"
| "need (JList xs) = Suc (sum_list (map (\<lambda>x. Suc (need x)) xs))"
| "need (JObj d) = Suc (sum_list (map (\<lambda>kv. Suc (need (snd kv))) d))"

text \<open>A value as Python can hold it: no dictionary has a key twice.\<close>

fun wf_json :: "json \<Rightarrow> bool" where
  "wf_json (JStr s) = True"
| "wf_json (JList xs) = list_all wf_json xs"
| "wf_json (JObj d) = (distinct (map fst d) \<and> list_all (\<lambda>kv. wf_json (snd kv)) d)"

text \<open>Every encoded value starts with the character that tells its kind.\<close>

definition opener :: "char \<Rightarrow> bool" where
  "opener c = (c = dquote \<or> c = CHR ''['' \<or> c = CHR ''{'')"

section \<open>Properties\<close>

subsection \<open>Sampling\<close>

lemma length_choices: "length (fst (choices population k g)) = k"
  by (induction k arbitrary: g) (simp_all add: split_beta Let_def)

lemma set_choices:
  "population \<noteq> [] \<Longrightarrow> set (fst (choices population k g)) \<subseteq> set population"
  by (induction k arbitrary: g) (simp_all add: split_beta Let_def)

lemma length_hex_alphabet: "length hex_alphabet = 16"
  by (simp add: hex_alphabet_def)

text \<open>
  Claim C4. The checksum generator takes nothing but the random source, returns for every
  state of it (it is a total function: no failure), and what it returns has exactly 64
  characters, each of them one of \<open>0123456789abcdef\<close>.
\<close>

theorem generate_hex_checksum_shape:
  "length (fst (generate_hex_checksum g)) = 64 \<and>
   (\<forall>c \<in> set (fst (generate_hex_checksum g)). c \<in> set ''0123456789abcdef'')"
proof -
  have "hex_alphabet \<noteq> []"
    by (simp add: hex_alphabet_def)
  then have "set (fst (choices hex_alphabet 64 g)) \<subseteq> set hex_alphabet"
    by (rule set_choices)
  then have "\<forall>c \<in> set (fst (generate_hex_checksum g)). c \<in> set hex_alphabet"
    by (auto simp add: generate_hex_checksum_def)
  then show ?thesis
    by (simp add: generate_hex_checksum_def length_choices hex_alphabet_def)
qed

theorem generate_hex_checksum_shape_witness:
  "length (fst (generate_hex_checksum (\<lambda>i. 7 * i + 3))) = 64 \<and>
   fst (generate_hex_checksum (\<lambda>i. 7 * i + 3)) =
     ''3a18f6d4b2907e5c3a18f6d4b2907e5c3a18f6d4b2907e5c3a18f6d4b2907e5c'' \<and>
   set (fst (generate_hex_checksum (\<lambda>i. 7 * i + 3))) \<subseteq> set ''0123456789abcdef''"
proof -
  have "fst (generate_hex_checksum (\<lambda>i. 7 * i + 3)) =
      ''3a18f6d4b2907e5c3a18f6d4b2907e5c3a18f6d4b2907e5c3a18f6d4b2907e5c''"
    by code_simp
  with generate_hex_checksum_shape [of "\<lambda>i. 7 * i + 3"] show ?thesis
    by blast
qed

subsection \<open>The display name\<close>

lemma length_strip: "length (strip s) \<le> length s"
proof -
  have "length (strip s) \<le> length (lstrip s)"
    by (simp add: strip_def rstrip_def) (metis length_dropWhile_le length_rev)
  also have "\<dots> \<le> length s"
    by (simp add: lstrip_def length_dropWhile_le)
  finally show ?thesis .
qed

lemma set_strip: "set (strip s) \<subseteq> set s"
proof -
  have "set (strip s) \<subseteq> set (lstrip s)"
    unfolding strip_def rstrip_def using set_dropWhileD by fastforce
  also have "\<dots> \<subseteq> set s"
    unfolding lstrip_def using set_dropWhileD by fastforce
  finally show ?thesis .
qed

lemma last_rstrip: "rstrip s \<noteq> [] \<Longrightarrow> \<not> py_isspace (last (rstrip s))"
  by (simp add: rstrip_def last_rev hd_dropWhile)

lemma rstrip_prefix: "s = rstrip s @ rev (takeWhile py_isspace (rev s))"
proof -
  have "rev (dropWhile py_isspace (rev s)) @ rev (takeWhile py_isspace (rev s))
        = rev (takeWhile py_isspace (rev s) @ dropWhile py_isspace (rev s))"
    by (simp only: rev_append)
  also have "\<dots> = s"
    by (simp only: takeWhile_dropWhile_id rev_rev_ident)
  finally show ?thesis
    by (simp only: rstrip_def)
qed

lemma hd_rstrip: "rstrip s \<noteq> [] \<Longrightarrow> hd (rstrip s) = hd s"
  using rstrip_prefix [of s] by (metis hd_append2)

lemma hd_strip: "strip s \<noteq> [] \<Longrightarrow> \<not> py_isspace (hd (strip s))"
proof -
  assume ne: "strip s \<noteq> []"
  then have "lstrip s \<noteq> []"
    by (auto simp add: strip_def rstrip_def)
  then have "\<not> py_isspace (hd (lstrip s))"
    by (simp add: lstrip_def hd_dropWhile)
  moreover have "hd (strip s) = hd (lstrip s)"
    using ne by (simp add: strip_def hd_rstrip)
  ultimately show ?thesis by simp
qed

lemma randint_range: "a \<le> b \<Longrightarrow> a \<le> fst (randint a b g) \<and> fst (randint a b g) \<le> b"
proof -
  assume "a \<le> b"
  have "g 0 mod (b - a + 1) < b - a + 1" by simp
  then have "g 0 mod (b - a + 1) \<le> b - a" by linarith
  with \<open>a \<le> b\<close> have "a + g 0 mod (b - a + 1) \<le> b" by linarith
  then show ?thesis
    by (simp add: randint_def draw_def)
qed

lemma generate_display_eq: "fst (generate_display g) = strip (display_raw g)"
  by (simp add: generate_display_def display_raw_def display_length_def split_beta)

lemma display_alphabet_eq:
  "display_alphabet = ''abcdefghijklmnopqrstuvwxyzABCDEFGHIJKLMNOPQRSTUVWXYZ0123456789 ''"
  by (simp add: display_alphabet_def ascii_letters_def ascii_lowercase_def ascii_uppercase_def
      digits_def)

text \<open>
  Claim C5. The display generator samples a length between 10 and 120, draws that many
  characters from the letters, the digits and the space, and returns the drawn string
  stripped. So the result is no longer than the sampled length, has only characters of that
  alphabet, and neither starts nor ends with white space. The witness shows a run that
  returns all ten drawn characters and a run whose result is empty.
\<close>

theorem generate_display_shape:
  "10 \<le> display_length g \<and> display_length g \<le> 120 \<and>
   length (display_raw g) = display_length g \<and>
   (\<forall>c \<in> set (display_raw g).
      c \<in> set ''abcdefghijklmnopqrstuvwxyzABCDEFGHIJKLMNOPQRSTUVWXYZ0123456789 '') \<and>
   fst (generate_display g) = strip (display_raw g) \<and>
   length (fst (generate_display g)) \<le> display_length g \<and>
   (\<forall>c \<in> set (fst (generate_display g)).
      c \<in> set ''abcdefghijklmnopqrstuvwxyzABCDEFGHIJKLMNOPQRSTUVWXYZ0123456789 '') \<and>
   (fst (generate_display g) \<noteq> [] \<longrightarrow>
      \<not> py_isspace (hd (fst (generate_display g))) \<and>
      \<not> py_isspace (last (fst (generate_display g))))"
proof -
  let ?d = "fst (generate_display g)"
  have range: "10 \<le> display_length g \<and> display_length g \<le> 120"
    unfolding display_length_def by (rule randint_range) simp
  have len: "length (display_raw g) = display_length g"
    by (simp add: display_raw_def length_choices)
  have "display_alphabet \<noteq> []"
    by (simp add: display_alphabet_eq)
  then have raw: "set (display_raw g) \<subseteq> set display_alphabet"
    unfolding display_raw_def by (rule set_choices)
  have d: "?d = strip (display_raw g)"
    by (rule generate_display_eq)
  have dlen: "length ?d \<le> display_length g"
    using length_strip [of "display_raw g"] by (simp add: d len)
  have dset: "set ?d \<subseteq> set display_alphabet"
    using set_strip [of "display_raw g"] raw by (simp add: d)
  have ends: "?d \<noteq> [] \<longrightarrow> \<not> py_isspace (hd ?d) \<and> \<not> py_isspace (last ?d)"
    unfolding d using hd_strip [of "display_raw g"] last_rstrip [of "lstrip (display_raw g)"]
    by (simp add: strip_def)
  from raw have raw': "\<forall>c \<in> set (display_raw g). c \<in> set display_alphabet"
    by blast
  from dset have dset': "\<forall>c \<in> set ?d. c \<in> set display_alphabet"
    by blast
  show ?thesis
    using range len raw' d dlen dset' ends unfolding display_alphabet_eq by blast
qed

theorem generate_display_shape_witness:
  "display_length (\<lambda>i. 5 * i) = 10 \<and>
   display_raw (\<lambda>i. 5 * i) = ''fkpuzEJOTY'' \<and>
   fst (generate_display (\<lambda>i. 5 * i)) = ''fkpuzEJOTY'' \<and>
   length (fst (generate_display (\<lambda>i. 5 * i))) \<le> display_length (\<lambda>i. 5 * i) \<and>
   \<not> py_isspace (hd (fst (generate_display (\<lambda>i. 5 * i)))) \<and>
   \<not> py_isspace (last (fst (generate_display (\<lambda>i. 5 * i)))) \<and>
   display_length (\<lambda>i. 62) = 72 \<and>
   display_raw (\<lambda>i. 62) = replicate 72 CHR '' '' \<and>
   fst (generate_display (\<lambda>i. 62)) = []"
proof -
  have a: "display_length (\<lambda>i. 5 * i) = 10"
    by code_simp
  have b: "display_raw (\<lambda>i. 5 * i) = ''fkpuzEJOTY''"
    by code_simp
  have c: "fst (generate_display (\<lambda>i. 5 * i)) = ''fkpuzEJOTY''"
    by code_simp
  then have ne: "fst (generate_display (\<lambda>i. 5 * i)) \<noteq> []"
    by simp
  have a': "display_length (\<lambda>i. 62) = 72"
    by code_simp
  have b': "display_raw (\<lambda>i. 62) = replicate 72 CHR '' ''"
    by code_simp
  have c': "fst (generate_display (\<lambda>i. 62)) = []"
    by code_simp
  from generate_display_shape [of "\<lambda>i. 5 * i"] ne a b c a' b' c' show ?thesis
    by blast
qed

subsection \<open>The metadata\<close>

lemma concat_replicate_single: "concat (replicate k [c]) = replicate k c"
  by (induction k) simp_all

lemma str_mul_single: "str_mul [c] n = replicate (nat n) c"
  by (simp add: str_mul_def concat_replicate_single)

lemma tags_large:
  "map (\<lambda>i. JStr (''tag_'' @ str_int i)) (py_range 20) =
     [JStr ''tag_0'', JStr ''tag_1'', JStr ''tag_2'', JStr ''tag_3'', JStr ''tag_4'',
      JStr ''tag_5'', JStr ''tag_6'', JStr ''tag_7'', JStr ''tag_8'', JStr ''tag_9'',
      JStr ''tag_10'', JStr ''tag_11'', JStr ''tag_12'', JStr ''tag_13'', JStr ''tag_14'',
      JStr ''tag_15'', JStr ''tag_16'', JStr ''tag_17'', JStr ''tag_18'', JStr ''tag_19'']"
  by code_simp

lemma config_large:
  "dict_of_pairs (map (\<lambda>i. (''key_'' @ str_int i, JStr (''value_'' @ str_int i))) (py_range 50)) =
     [(''key_0'', JStr ''value_0''), (''key_1'', JStr ''value_1''),
       (''key_2'', JStr ''value_2''), (''key_3'', JStr ''value_3''),
       (''key_4'', JStr ''value_4''), (''key_5'', JStr ''value_5''),
       (''key_6'', JStr ''value_6''), (''key_7'', JStr ''value_7''),
       (''key_8'', JStr ''value_8''), (''key_9'', JStr ''value_9''),
       (''key_10'', JStr ''value_10''), (''key_11'', JStr ''value_11''),
       (''key_12'', JStr ''value_12''), (''key_13'', JStr ''value_13''),
       (''key_14'', JStr ''value_14''), (''key_15'', JStr ''value_15''),
       (''key_16'', JStr ''value_16''), (''key_17'', JStr ''value_17''),
       (''key_18'', JStr ''value_18''), (''key_19'', JStr ''value_19''),
       (''key_20'', JStr ''value_20''), (''key_21'', JStr ''value_21''),
       (''key_22'', JStr ''value_22''), (''key_23'', JStr ''value_23''),
       (''key_24'', JStr ''value_24''), (''key_25'', JStr ''value_25''),
       (''key_26'', JStr ''value_26''), (''key_27'', JStr ''value_27''),
       (''key_28'', JStr ''value_28''), (''key_29'', JStr ''value_29''),
       (''key_30'', JStr ''value_30''), (''key_31'', JStr ''value_31''),
       (''key_32'', JStr ''value_32''), (''key_33'', JStr ''value_33''),
       (''key_34'', JStr ''value_34''), (''key_35'', JStr ''value_35''),
       (''key_36'', JStr ''value_36''), (''key_37'', JStr ''value_37''),
       (''key_38'', JStr ''value_38''), (''key_39'', JStr ''value_39''),
       (''key_40'', JStr ''value_40''), (''key_41'', JStr ''value_41''),
       (''key_42'', JStr ''value_42''), (''key_43'', JStr ''value_43''),
       (''key_44'', JStr ''value_44''), (''key_45'', JStr ''value_45''),
       (''key_46'', JStr ''value_46''), (''key_47'', JStr ''value_47''),
       (''key_48'', JStr ''value_48''), (''key_49'', JStr ''value_49'')]"
  by code_simp

text \<open>
  Claim C2. The metadata of each size has the shape the specification gives: empty for
  \<open>none\<close>; for \<open>small\<close> exactly the three keys \<open>source\<close>, \<open>version\<close> and \<open>tags\<close> with
  their literal values; for \<open>medium\<close> a \<open>description\<close> of 200 times \<open>A\<close>; for \<open>large\<close> a
  \<open>config\<close> inside \<open>metadata\<close> with exactly the 50 entries \<open>key_0\<close> to \<open>key_49\<close>, each
  mapped to the \<open>value_\<close> of the same number, \<open>notes\<close> of 300 times \<open>C\<close> and a
  \<open>description\<close> of 500 times \<open>B\<close>.
\<close>

theorem generate_extra_shapes:
  "generate_extra ''none'' = JObj [] \<and>
   generate_extra ''small'' =
     JObj [(''source'', JStr ''test_script''), (''version'', JStr ''1.0''),
           (''tags'', JList [JStr ''test'', JStr ''generated''])] \<and>
   field (generate_extra ''medium'') ''description'' = Some (JStr (replicate 200 CHR ''A'')) \<and>
   (case field (generate_extra ''large'') ''metadata'' of
      None \<Rightarrow> False
    | Some metadata \<Rightarrow> field metadata ''config'' = Some (JObj
      [(''key_0'', JStr ''value_0''), (''key_1'', JStr ''value_1''),
       (''key_2'', JStr ''value_2''), (''key_3'', JStr ''value_3''),
       (''key_4'', JStr ''value_4''), (''key_5'', JStr ''value_5''),
       (''key_6'', JStr ''value_6''), (''key_7'', JStr ''value_7''),
       (''key_8'', JStr ''value_8''), (''key_9'', JStr ''value_9''),
       (''key_10'', JStr ''value_10''), (''key_11'', JStr ''value_11''),
       (''key_12'', JStr ''value_12''), (''key_13'', JStr ''value_13''),
       (''key_14'', JStr ''value_14''), (''key_15'', JStr ''value_15''),
       (''key_16'', JStr ''value_16''), (''key_17'', JStr ''value_17''),
       (''key_18'', JStr ''value_18''), (''key_19'', JStr ''value_19''),
       (''key_20'', JStr ''value_20''), (''key_21'', JStr ''value_21''),
       (''key_22'', JStr ''value_22''), (''key_23'', JStr ''value_23''),
       (''key_24'', JStr ''value_24''), (''key_25'', JStr ''value_25''),
       (''key_26'', JStr ''value_26''), (''key_27'', JStr ''value_27''),
       (''key_28'', JStr ''value_28''), (''key_29'', JStr ''value_29''),
       (''key_30'', JStr ''value_30''), (''key_31'', JStr ''value_31''),
       (''key_32'', JStr ''value_32''), (''key_33'', JStr ''value_33''),
       (''key_34'', JStr ''value_34''), (''key_35'', JStr ''value_35''),
       (''key_36'', JStr ''value_36''), (''key_37'', JStr ''value_37''),
       (''key_38'', JStr ''value_38''), (''key_39'', JStr ''value_39''),
       (''key_40'', JStr ''value_40''), (''key_41'', JStr ''value_41''),
       (''key_42'', JStr ''value_42''), (''key_43'', JStr ''value_43''),
       (''key_44'', JStr ''value_44''), (''key_45'', JStr ''value_45''),
       (''key_46'', JStr ''value_46''), (''key_47'', JStr ''value_47''),
       (''key_48'', JStr ''value_48''), (''key_49'', JStr ''value_49'')])) \<and>
   field (generate_extra ''large'') ''notes'' = Some (JStr (replicate 300 CHR ''C'')) \<and>
   field (generate_extra ''large'') ''description'' = Some (JStr (replicate 500 CHR ''B''))"
proof -
  have a: "str_mul ''A'' 200 = replicate 200 CHR ''A''"
    by (simp add: str_mul_single)
  have b: "str_mul ''B'' 500 = replicate 500 CHR ''B''"
    by (simp add: str_mul_single)
  have c: "str_mul ''C'' 300 = replicate 300 CHR ''C''"
    by (simp add: str_mul_single)
  show ?thesis
    unfolding generate_extra_def a b c config_large by simp
qed

text \<open>
  Claim C3, as stated, fails: the \<open>tags\<close> of size \<open>large\<close> are not the 22 strings
  \<open>test\<close>, \<open>generated\<close>, \<open>tag_0\<close> to \<open>tag_19\<close>. The list literal of the source has a third
  fixed string, \<open>large\<close>, as the one of size \<open>medium\<close> has \<open>medium\<close>.
\<close>

theorem generate_extra_large_tags_counterexample:
  "field (generate_extra ''large'') ''tags'' \<noteq> Some (JList
      [JStr ''test'', JStr ''generated'', JStr ''tag_0'', JStr ''tag_1'', JStr ''tag_2'',
       JStr ''tag_3'', JStr ''tag_4'', JStr ''tag_5'', JStr ''tag_6'', JStr ''tag_7'',
       JStr ''tag_8'', JStr ''tag_9'', JStr ''tag_10'', JStr ''tag_11'', JStr ''tag_12'',
       JStr ''tag_13'', JStr ''tag_14'', JStr ''tag_15'', JStr ''tag_16'', JStr ''tag_17'',
       JStr ''tag_18'', JStr ''tag_19''])"
  unfolding generate_extra_def tags_large by simp

text \<open>
  Claim C3, amended. The \<open>tags\<close> of size \<open>large\<close> are the three fixed strings \<open>test\<close>,
  \<open>generated\<close> and \<open>large\<close> followed by the twenty generated strings \<open>tag_0\<close> to
  \<open>tag_19\<close>, in this order and with nothing else: 23 elements.
\<close>

theorem generate_extra_large_tags:
  "field (generate_extra ''large'') ''tags'' = Some (JList
      [JStr ''test'', JStr ''generated'', JStr ''large'', JStr ''tag_0'', JStr ''tag_1'',
       JStr ''tag_2'', JStr ''tag_3'', JStr ''tag_4'', JStr ''tag_5'', JStr ''tag_6'',
       JStr ''tag_7'', JStr ''tag_8'', JStr ''tag_9'', JStr ''tag_10'', JStr ''tag_11'',
       JStr ''tag_12'', JStr ''tag_13'', JStr ''tag_14'', JStr ''tag_15'', JStr ''tag_16'',
       JStr ''tag_17'', JStr ''tag_18'', JStr ''tag_19'']) \<and>
   (\<exists>tags. field (generate_extra ''large'') ''tags'' = Some (JList tags) \<and> length tags = 23)"
  unfolding generate_extra_def tags_large by simp

text \<open>
  Claim C9. A selector that is none of the four sizes does not make \<^verbatim>\<open>generate_extra\<close>
  fail: every test of the chain is false, the final \<^verbatim>\<open>return {}\<close> is reached, and the
  result is the empty structure, the same as for \<open>none\<close>.
\<close>

theorem generate_extra_unknown:
  "sz \<notin> set [''none'', ''small'', ''medium'', ''large''] \<Longrightarrow>
     generate_extra sz = JObj [] \<and> generate_extra sz = generate_extra ''none''"
  by (simp add: generate_extra_def)

theorem generate_extra_unknown_witness:
  "''bogus'' \<notin> set [''none'', ''small'', ''medium'', ''large''] \<and>
   generate_extra ''bogus'' = JObj [] \<and> generate_extra ''bogus'' = generate_extra ''none''"
proof -
  have h: "''bogus'' \<notin> set [''none'', ''small'', ''medium'', ''large'']"
    by simp
  from generate_extra_unknown [OF h] h show ?thesis
    by blast
qed

subsection \<open>The batch\<close>

text \<open>The random source before the \<open>i\<close>-th asset of a batch is generated.\<close>

lemma length_asset_payloads: "length (fst (asset_payloads k extra_size g)) = k"
  by (induction k arbitrary: g) (simp_all add: split_beta)

lemma nth_asset_payloads:
  "i < k \<Longrightarrow>
   fst (asset_payloads k extra_size g) ! i =
     fst (generate_asset_payload extra_size
            (((\<lambda>h. snd (generate_asset_payload extra_size h)) ^^ i) g))"
proof (induction k arbitrary: g i)
  case 0
  then show ?case by simp
next
  case (Suc k)
  show ?case
  proof (cases i)
    case 0
    then show ?thesis by (simp add: split_beta)
  next
    case (Suc j)
    with Suc.prems have "j < k" by simp
    then show ?thesis
      using Suc.IH [of j "snd (generate_asset_payload extra_size g)"] Suc
      by (simp add: split_beta funpow_Suc_right del: funpow.simps)
  qed
qed

text \<open>
  Claim C1. For a count \<open>n \<ge> 0\<close> and any size, the four named ones included, the batch
  is a document with the one key \<open>assets\<close>, whose list has exactly \<open>n\<close> entries; entry
  \<open>i\<close> is an asset payload generated on its own from the random source as the entries
  before it left it. For \<open>n = 0\<close> the list is empty, and nothing fails.
\<close>

theorem generate_batch_payload_count:
  assumes "0 \<le> n"
  shows "\<exists>assets.
           fst (generate_batch_payload n extra_size g) = JObj [(''assets'', JList assets)] \<and>
           int (length assets) = n \<and>
           (\<forall>i < length assets.
              assets ! i =
                fst (generate_asset_payload extra_size
                       (((\<lambda>h. snd (generate_asset_payload extra_size h)) ^^ i) g))) \<and>
           (n = 0 \<longrightarrow> assets = [])"
proof -
  let ?assets = "fst (asset_payloads (nat n) extra_size g)"
  have doc: "fst (generate_batch_payload n extra_size g) = JObj [(''assets'', JList ?assets)]"
    by (simp add: generate_batch_payload_def py_range_def split_beta)
  have len: "length ?assets = nat n"
    by (rule length_asset_payloads)
  with assms have count: "int (length ?assets) = n"
    by simp
  have each: "\<forall>i < length ?assets.
      ?assets ! i =
        fst (generate_asset_payload extra_size
               (((\<lambda>h. snd (generate_asset_payload extra_size h)) ^^ i) g))"
    using nth_asset_payloads [of _ "nat n" extra_size g] by (simp add: len)
  have zero: "n = 0 \<longrightarrow> ?assets = []"
    by simp
  from doc count each zero show ?thesis
    by blast
qed

theorem generate_batch_payload_count_witness:
  "(0::int) \<le> 0 \<and> (0::int) \<le> 2 \<and>
   fst (generate_batch_payload 0 ''small'' (\<lambda>i. 3 * i)) = JObj [(''assets'', JList [])] \<and>
   (\<exists>assets.
      fst (generate_batch_payload 2 ''none'' (\<lambda>i. 3 * i)) = JObj [(''assets'', JList assets)] \<and>
      int (length assets) = 2)"
proof -
  have h0: "(0::int) \<le> 0" and h2: "(0::int) \<le> 2"
    by simp_all
  from generate_batch_payload_count [OF h0, of "''small''" "\<lambda>i. 3 * i"]
  have "fst (generate_batch_payload 0 ''small'' (\<lambda>i. 3 * i)) = JObj [(''assets'', JList [])]"
    by auto
  moreover from generate_batch_payload_count [OF h2, of "''none''" "\<lambda>i. 3 * i"]
  have "\<exists>assets.
      fst (generate_batch_payload 2 ''none'' (\<lambda>i. 3 * i)) = JObj [(''assets'', JList assets)] \<and>
      int (length assets) = 2"
    by blast
  ultimately show ?thesis
    by simp
qed

subsection \<open>The program\<close>


lemma utf8_encode_ascii: "\<forall>c \<in> set s. (of_char c :: nat) < 128 \<Longrightarrow> utf8_encode s = s"
  by (induction s) (simp_all add: utf8_encode_def)









subsection \<open>The size report\<close>

lemma round_half_even_close: "\<bar>x - of_int (round_half_even x)\<bar> \<le> 1 / 2"
proof -
  have "of_int \<lfloor>x\<rfloor> \<le> x" and "x < of_int \<lfloor>x\<rfloor> + 1"
    by linarith+
  then show ?thesis
    unfolding round_half_even_def Let_def by (auto simp add: abs_le_iff)
qed

lemma round_half_even_nonneg: "0 \<le> x \<Longrightarrow> 0 \<le> round_half_even x"
  unfolding round_half_even_def Let_def by (auto simp add: add_nonneg_nonneg)

lemma hundredths_close: "0 \<le> x \<Longrightarrow> \<bar>x * 100 - of_nat (hundredths x)\<bar> \<le> 1 / 2"
proof -
  assume "0 \<le> x"
  then have "0 \<le> round_half_even (x * 100)"
    by (simp add: round_half_even_nonneg)
  then have "(of_nat (hundredths x) :: rat) = of_int (round_half_even (x * 100))"
    using \<open>0 \<le> x\<close> by (simp add: hundredths_def)
  then show ?thesis
    using round_half_even_close [of "x * 100"] by simp
qed

lemma format_size_cases:
  fixes b :: int
  shows "format_size b =
    (if b < 1024 then fmt_2f (of_int b) @ '' B''
     else if b < 1024 ^ 2 then fmt_2f (of_int b / 1024 ^ 1) @ '' KB''
     else if b < 1024 ^ 3 then fmt_2f (of_int b / 1024 ^ 2) @ '' MB''
     else if b < 1024 ^ 4 then fmt_2f (of_int b / 1024 ^ 3) @ '' GB''
     else fmt_2f (of_int b / 1024 ^ 4) @ '' TB'')"
proof -
  have c0: "((of_int b :: rat) < 1024) = (b < 1024)"
    by linarith
  have c1: "((of_int b :: rat) / 1024 < 1024) = (b < 1024 ^ 2)"
    by (auto simp add: divide_less_eq)
  have c2: "((of_int b :: rat) / 1024 / 1024 < 1024) = (b < 1024 ^ 3)"
    by (auto simp add: divide_less_eq)
  have c3: "((of_int b :: rat) / 1024 / 1024 / 1024 < 1024) = (b < 1024 ^ 4)"
    by (auto simp add: divide_less_eq)
  show ?thesis
    unfolding format_size_def unit_names_def format_size_loop.simps c0 c1 c2 c3
    by simp
qed


lemma scaled_ge:
  fixes b :: int
  assumes "1024 ^ k \<le> b" and "j < k"
  shows "1024 \<le> (of_int b :: rat) / 1024 ^ j"
proof -
  from assms(2) have "Suc j \<le> k"
    by simp
  then have "(1024 :: int) ^ Suc j \<le> 1024 ^ k"
    by (rule power_increasing) simp
  with assms(1) have "(1024 :: int) ^ Suc j \<le> b"
    by linarith
  then have "(of_int ((1024 :: int) ^ Suc j) :: rat) \<le> of_int b"
    by (simp only: of_int_le_iff)
  then have "(1024 :: rat) * 1024 ^ j \<le> of_int b"
    by simp
  then show ?thesis
    by (simp add: le_divide_eq)
qed

lemma fmt_2f_nonneg:
  "0 \<le> x \<Longrightarrow>
     fmt_2f x = str_nat (hundredths x div 100) @ ''.'' @ zfill2 (hundredths x mod 100)"
  by (simp add: fmt_2f_def Let_def)

text \<open>
  Claim C8, as stated, fails: the displayed magnitude is not always below 1024 where that
  is possible. 1048575 bytes are below \<open>1024 ^ 4\<close>, the value in \<open>KB\<close> is just under
  1024 and is rounded up, so the report reads \<open>1024.00 KB\<close>, where the next unit
  would have displayed \<open>1.00\<close>.
\<close>

theorem format_size_displayed_counterexample:
  "format_size 1048575 = ''1024.00 KB'' \<and>
   (1048575 :: int) < 1024 ^ 4 \<and>
   \<not> hundredths (1048575 / 1024) < 1024 * 100 \<and>
   fmt_2f (1048575 / 1024 ^ 2) = ''1.00''"
proof -
  have fl: "\<lfloor>26214375 / 256 :: rat\<rfloor> = 102399"
    by (rule floor_unique) simp_all
  have h: "hundredths (1048575 / 1024) = 102400"
    by (simp add: hundredths_def round_half_even_def Let_def fl)
  have s1: "str_nat 1024 = ''1024''"
    by code_simp
  have s2: "zfill2 0 = ''00''"
    by code_simp
  have kb: "fmt_2f (1048575 / 1024) = ''1024.00''"
    by (simp add: fmt_2f_def h s1 s2)
  have "format_size 1048575 = fmt_2f (1048575 / 1024) @ '' KB''"
    by (simp add: format_size_cases)
  then have shown: "format_size 1048575 = ''1024.00 KB''"
    by (simp add: kb)
  have mb: "fmt_2f (1048575 / 1024 ^ 2) = ''1.00''"
    by code_simp
  from shown h mb show ?thesis
    by simp
qed

text \<open>
  Claim C8, amended. For a byte count \<open>0 \<le> b < 2 ^ 53\<close> (where the floating-point
  arithmetic of the source is exact) \<^verbatim>\<open>format_size\<close> divides by 1024 until the value
  is below 1024 or the unit \<open>TB\<close> is reached: the unit is the first of \<open>B\<close>, \<open>KB\<close>,
  \<open>MB\<close>, \<open>GB\<close> at which the scaled value \<open>b / 1024 ^ k\<close> is below 1024, and \<open>TB\<close> when
  there is none. So for \<open>b < 1024 ^ 4\<close> the scaled value is below 1024, and from
  \<open>1024 ^ 4\<close> on the unit is \<open>TB\<close>. What is displayed is the scaled value rounded to
  hundredths (at most half a hundredth away from it), written with two decimals.
\<close>

theorem format_size_unit:
  assumes "0 \<le> b" and "b < 2 ^ 53"
  shows "\<exists>k \<le> 4.
    format_size b = fmt_2f (of_int b / 1024 ^ k) @ '' '' @ [''B'', ''KB'', ''MB'', ''GB'', ''TB''] ! k \<and>
    (\<forall>j < k. 1024 \<le> (of_int b :: rat) / 1024 ^ j) \<and>
    (b < 1024 ^ 4 \<longrightarrow> (of_int b :: rat) / 1024 ^ k < 1024) \<and>
    (1024 ^ 4 \<le> b \<longrightarrow> k = 4) \<and>
    \<bar>(of_int b :: rat) / 1024 ^ k * 100 - of_nat (hundredths (of_int b / 1024 ^ k))\<bar> \<le> 1 / 2 \<and>
    fmt_2f (of_int b / 1024 ^ k) =
      str_nat (hundredths (of_int b / 1024 ^ k) div 100) @ ''.''
      @ zfill2 (hundredths (of_int b / 1024 ^ k) mod 100)"
proof -
  have nonneg: "0 \<le> (of_int b :: rat) / 1024 ^ k" for k
    using assms(1) by simp
  have round: "\<bar>(of_int b :: rat) / 1024 ^ k * 100 - of_nat (hundredths (of_int b / 1024 ^ k))\<bar> \<le> 1 / 2" for k
    using nonneg by (rule hundredths_close)
  have shown: "fmt_2f (of_int b / 1024 ^ k) =
      str_nat (hundredths (of_int b / 1024 ^ k) div 100) @ ''.''
      @ zfill2 (hundredths (of_int b / 1024 ^ k) mod 100)" for k
    using nonneg by (rule fmt_2f_nonneg)
  have below: "b < 1024 ^ Suc k \<Longrightarrow> (of_int b :: rat) / 1024 ^ k < 1024" for k
  proof -
    assume "b < 1024 ^ Suc k"
    then have "(of_int b :: rat) < of_int (1024 ^ Suc k)"
      by (simp only: of_int_less_iff)
    then show ?thesis
      by (simp add: divide_less_eq)
  qed
  consider (B) "b < 1024"
    | (KB) "1024 ^ 1 \<le> b" "b < 1024 ^ 2"
    | (MB) "1024 ^ 2 \<le> b" "b < 1024 ^ 3"
    | (GB) "1024 ^ 3 \<le> b" "b < 1024 ^ 4"
    | (TB) "1024 ^ 4 \<le> b"
    by fastforce
  then show ?thesis
  proof cases
    case B
    then have "format_size b = fmt_2f (of_int b / 1024 ^ 0) @ '' '' @ [''B'', ''KB'', ''MB'', ''GB'', ''TB''] ! 0"
      by (simp add: format_size_cases)
    moreover have "b < 1024 ^ 4 \<longrightarrow> (of_int b :: rat) / 1024 ^ 0 < 1024"
      using B below [of 0] by simp
    moreover have "1024 ^ 4 \<le> b \<longrightarrow> (0 :: nat) = 4"
      using B by simp
    ultimately show ?thesis
      using round [of 0] shown [of 0] by (intro exI [of _ 0]) simp
  next
    case KB
    then have "format_size b = fmt_2f (of_int b / 1024 ^ 1) @ '' '' @ [''B'', ''KB'', ''MB'', ''GB'', ''TB''] ! 1"
      by (simp add: format_size_cases)
    moreover have "\<forall>j < 1. 1024 \<le> (of_int b :: rat) / 1024 ^ j"
      using scaled_ge [OF KB(1)] by blast
    moreover have "b < 1024 ^ 4 \<longrightarrow> (of_int b :: rat) / 1024 ^ 1 < 1024"
      using KB(2) below [of 1] by simp
    moreover have "1024 ^ 4 \<le> b \<longrightarrow> (1 :: nat) = 4"
      using KB(2) by simp
    ultimately show ?thesis
      using round [of 1] shown [of 1] by (intro exI [of _ 1]) simp
  next
    case MB
    then have "format_size b = fmt_2f (of_int b / 1024 ^ 2) @ '' '' @ [''B'', ''KB'', ''MB'', ''GB'', ''TB''] ! 2"
      by (simp add: format_size_cases)
    moreover have "\<forall>j < 2. 1024 \<le> (of_int b :: rat) / 1024 ^ j"
      using scaled_ge [OF MB(1)] by blast
    moreover have "b < 1024 ^ 4 \<longrightarrow> (of_int b :: rat) / 1024 ^ 2 < 1024"
      using MB(2) below [of 2] by simp
    moreover have "1024 ^ 4 \<le> b \<longrightarrow> (2 :: nat) = 4"
      using MB(2) by simp
    ultimately show ?thesis
      using round [of 2] shown [of 2] by (intro exI [of _ 2]) simp
  next
    case GB
    then have "format_size b = fmt_2f (of_int b / 1024 ^ 3) @ '' '' @ [''B'', ''KB'', ''MB'', ''GB'', ''TB''] ! 3"
      by (simp add: format_size_cases)
    moreover have "\<forall>j < 3. 1024 \<le> (of_int b :: rat) / 1024 ^ j"
      using scaled_ge [OF GB(1)] by blast
    moreover have "b < 1024 ^ 4 \<longrightarrow> (of_int b :: rat) / 1024 ^ 3 < 1024"
      using GB(2) below [of 3] by simp
    moreover have "1024 ^ 4 \<le> b \<longrightarrow> (3 :: nat) = 4"
      using GB(2) by simp
    ultimately show ?thesis
      using round [of 3] shown [of 3] by (intro exI [of _ 3]) simp
  next
    case TB
    then have "format_size b = fmt_2f (of_int b / 1024 ^ 4) @ '' '' @ [''B'', ''KB'', ''MB'', ''GB'', ''TB''] ! 4"
      by (simp add: format_size_cases)
    moreover have "\<forall>j < 4. 1024 \<le> (of_int b :: rat) / 1024 ^ j"
      using scaled_ge [OF TB] by blast
    moreover have "b < 1024 ^ 4 \<longrightarrow> (of_int b :: rat) / 1024 ^ 4 < 1024"
      using TB by simp
    ultimately show ?thesis
      using round [of 4] shown [of 4] by (intro exI [of _ 4]) simp
  qed
qed

theorem format_size_unit_witness:
  "(0 :: int) \<le> 1536 \<and> (1536 :: int) < 2 ^ 53 \<and>
   format_size 1536 = ''1.50 KB'' \<and>
   format_size 0 = ''0.00 B'' \<and>
   (\<exists>k \<le> 4.
      format_size 1536 =
        fmt_2f (of_int 1536 / 1024 ^ k) @ '' '' @ [''B'', ''KB'', ''MB'', ''GB'', ''TB''] ! k \<and>
      (of_int 1536 :: rat) / 1024 ^ k < 1024)"
proof -
  have h1: "(0 :: int) \<le> 1536" and h2: "(1536 :: int) < 2 ^ 53"
    by simp_all
  have v: "format_size 1536 = ''1.50 KB'' \<and> format_size 0 = ''0.00 B''"
    by code_simp
  from format_size_unit [OF h1 h2] obtain k where
    "k \<le> 4"
    "format_size 1536 =
       fmt_2f (of_int 1536 / 1024 ^ k) @ '' '' @ [''B'', ''KB'', ''MB'', ''GB'', ''TB''] ! k"
    "(1536 :: int) < 1024 ^ 4 \<longrightarrow> (of_int 1536 :: rat) / 1024 ^ k < 1024"
    by blast
  then have "\<exists>k \<le> 4.
      format_size 1536 =
        fmt_2f (of_int 1536 / 1024 ^ k) @ '' '' @ [''B'', ''KB'', ''MB'', ''GB'', ''TB''] ! k \<and>
      (of_int 1536 :: rat) / 1024 ^ k < 1024"
    by auto
  with h1 h2 v show ?thesis
    by blast
qed

subsection \<open>Reading back what was written\<close>

lemma below_16:
  "(d :: nat) < 16 \<Longrightarrow> d \<in> {0, 1, 2, 3, 4, 5, 6, 7, 8, 9, 10, 11, 12, 13, 14, 15}"
  by (simp add: numeral_eq_Suc less_Suc_eq) 

lemma hex_value_hex: "d < 16 \<Longrightarrow> hex_value (hex_alphabet ! d) = Some d"
proof -
  assume "d < 16"
  then have "d \<in> {0, 1, 2, 3, 4, 5, 6, 7, 8, 9, 10, 11, 12, 13, 14, 15}"
    by (rule below_16)
  then consider "d = 0" | "d = 1" | "d = 2" | "d = 3" | "d = 4" | "d = 5" | "d = 6" | "d = 7"
    | "d = 8" | "d = 9" | "d = 10" | "d = 11" | "d = 12" | "d = 13" | "d = 14" | "d = 15"
    by blast
  then show ?thesis
    by cases (simp_all add: hex_alphabet_def hex_value_def)
qed

lemma hex4_value_hex4:
  assumes "n < 256"
  shows "hex4_value (hex_alphabet ! (n div 4096 mod 16)) (hex_alphabet ! (n div 256 mod 16))
           (hex_alphabet ! (n div 16 mod 16)) (hex_alphabet ! (n mod 16)) = Some n"
proof -
  from assms have high: "n div 4096 mod 16 = 0" "n div 256 mod 16 = 0"
    by simp_all
  from assms have "n div 16 < 16"
    by (simp add: less_mult_imp_div_less)
  then have "n div 16 mod 16 = n div 16"
    by simp
  then have low: "n div 16 mod 16 * 16 + n mod 16 = n"
    by simp
  have "hex_value (hex_alphabet ! 0) = Some 0"
    by (rule hex_value_hex) simp
  moreover have "hex_value (hex_alphabet ! (n div 16 mod 16)) = Some (n div 16 mod 16)"
    by (rule hex_value_hex) simp
  moreover have "hex_value (hex_alphabet ! (n mod 16)) = Some (n mod 16)"
    by (rule hex_value_hex) simp
  ultimately show ?thesis
    by (simp add: hex4_value_def high low)
qed
lemma parse_chars_unicode:
  "parse_chars (bslash # CHR ''u'' # h1 # h2 # h3 # h4 # t) =
     (case hex4_value h1 h2 h3 h4 of
        None \<Rightarrow> None
      | Some n \<Rightarrow> if n < 256 then prepend (char_of n) (parse_chars t) else None)"
  by (simp add: bslash_def dquote_def)

lemma parse_chars_hex4:
  "parse_chars (bslash # CHR ''u'' # hex4 (of_char c) @ t) = prepend c (parse_chars t)"
proof -
  let ?n = "of_char c :: nat"
  let ?h1 = "hex_alphabet ! (?n div 4096 mod 16)"
  let ?h2 = "hex_alphabet ! (?n div 256 mod 16)"
  let ?h3 = "hex_alphabet ! (?n div 16 mod 16)"
  let ?h4 = "hex_alphabet ! (?n mod 16)"
  have n: "?n < 256"
    by simp
  have v: "hex4_value ?h1 ?h2 ?h3 ?h4 = Some ?n"
    by (rule hex4_value_hex4 [OF n])
  have "parse_chars (bslash # CHR ''u'' # hex4 ?n @ t)
        = parse_chars (bslash # CHR ''u'' # ?h1 # ?h2 # ?h3 # ?h4 # t)"
    by (simp only: hex4_def append_Cons append_Nil)
  also have "\<dots> = (case hex4_value ?h1 ?h2 ?h3 ?h4 of
        None \<Rightarrow> None
      | Some n \<Rightarrow> if n < 256 then prepend (char_of n) (parse_chars t) else None)"
    by (rule parse_chars_unicode)
  also have "\<dots> = prepend c (parse_chars t)"
    by (simp only: v option.case n if_True char_of_char)
  finally show ?thesis .
qed

lemma parse_chars_two_char:
  "unescape e = Some d \<Longrightarrow> e \<noteq> CHR ''u'' \<Longrightarrow>
     parse_chars (bslash # e # t) = prepend d (parse_chars t)"
  by (simp add: bslash_def dquote_def)

lemma parse_chars_plain:
  "c \<noteq> dquote \<Longrightarrow> c \<noteq> bslash \<Longrightarrow> 32 \<le> (of_char c :: nat) \<Longrightarrow>
     parse_chars (c # t) = prepend c (parse_chars t)"
  by simp

lemma parse_chars_escape_char: "parse_chars (escape_char c @ t) = prepend c (parse_chars t)"
proof -
  consider (bslash) "c = bslash" | (dquote) "c = dquote" | (b) "c = CHR 0x08"
    | (f) "c = CHR 0x0C" | (n) "c = CHR 0x0A" | (r) "c = CHR 0x0D" | (t) "c = CHR 0x09"
    | (plain) "c \<noteq> bslash" "c \<noteq> dquote" "c \<noteq> CHR 0x08" "c \<noteq> CHR 0x0C" "c \<noteq> CHR 0x0A"
        "c \<noteq> CHR 0x0D" "c \<noteq> CHR 0x09" "32 \<le> (of_char c :: nat) \<and> (of_char c :: nat) \<le> 126"
    | (other) "c \<noteq> bslash" "c \<noteq> dquote" "c \<noteq> CHR 0x08" "c \<noteq> CHR 0x0C" "c \<noteq> CHR 0x0A"
        "c \<noteq> CHR 0x0D" "c \<noteq> CHR 0x09" "\<not> (32 \<le> (of_char c :: nat) \<and> (of_char c :: nat) \<le> 126)"
    by argo
  then show ?thesis
  proof cases
    case bslash
    have e: "escape_char c = [bslash, bslash]"
      by (simp add: escape_char_def bslash bslash_def dquote_def)
    have u: "unescape (bslash) = Some c"
      by (simp add: unescape_def bslash bslash_def dquote_def)
    have nu: "bslash \<noteq> CHR ''u''"
      by (simp add: bslash_def dquote_def)
    show ?thesis
      unfolding e using parse_chars_two_char [OF u nu] by (simp only: append_Cons append_Nil)
  next
    case dquote
    have e: "escape_char c = [bslash, dquote]"
      by (simp add: escape_char_def dquote bslash_def dquote_def)
    have u: "unescape (dquote) = Some c"
      by (simp add: unescape_def dquote bslash_def dquote_def)
    have nu: "dquote \<noteq> CHR ''u''"
      by (simp add: bslash_def dquote_def)
    show ?thesis
      unfolding e using parse_chars_two_char [OF u nu] by (simp only: append_Cons append_Nil)
  next
    case b
    have e: "escape_char c = [bslash, CHR ''b'']"
      by (simp add: escape_char_def b bslash_def dquote_def)
    have u: "unescape (CHR ''b'') = Some c"
      by (simp add: unescape_def b bslash_def dquote_def)
    have nu: "CHR ''b'' \<noteq> CHR ''u''"
      by (simp add: bslash_def dquote_def)
    show ?thesis
      unfolding e using parse_chars_two_char [OF u nu] by (simp only: append_Cons append_Nil)
  next
    case f
    have e: "escape_char c = [bslash, CHR ''f'']"
      by (simp add: escape_char_def f bslash_def dquote_def)
    have u: "unescape (CHR ''f'') = Some c"
      by (simp add: unescape_def f bslash_def dquote_def)
    have nu: "CHR ''f'' \<noteq> CHR ''u''"
      by (simp add: bslash_def dquote_def)
    show ?thesis
      unfolding e using parse_chars_two_char [OF u nu] by (simp only: append_Cons append_Nil)
  next
    case n
    have e: "escape_char c = [bslash, CHR ''n'']"
      by (simp add: escape_char_def n bslash_def dquote_def)
    have u: "unescape (CHR ''n'') = Some c"
      by (simp add: unescape_def n bslash_def dquote_def)
    have nu: "CHR ''n'' \<noteq> CHR ''u''"
      by (simp add: bslash_def dquote_def)
    show ?thesis
      unfolding e using parse_chars_two_char [OF u nu] by (simp only: append_Cons append_Nil)
  next
    case r
    have e: "escape_char c = [bslash, CHR ''r'']"
      by (simp add: escape_char_def r bslash_def dquote_def)
    have u: "unescape (CHR ''r'') = Some c"
      by (simp add: unescape_def r bslash_def dquote_def)
    have nu: "CHR ''r'' \<noteq> CHR ''u''"
      by (simp add: bslash_def dquote_def)
    show ?thesis
      unfolding e using parse_chars_two_char [OF u nu] by (simp only: append_Cons append_Nil)
  next
    case t
    have e: "escape_char c = [bslash, CHR ''t'']"
      by (simp add: escape_char_def t bslash_def dquote_def)
    have u: "unescape (CHR ''t'') = Some c"
      by (simp add: unescape_def t bslash_def dquote_def)
    have nu: "CHR ''t'' \<noteq> CHR ''u''"
      by (simp add: bslash_def dquote_def)
    show ?thesis
      unfolding e using parse_chars_two_char [OF u nu] by (simp only: append_Cons append_Nil)
  next
    case plain
    then have e: "escape_char c = [c]"
      by (simp add: escape_char_def)
    from plain have "parse_chars (c # t) = prepend c (parse_chars t)"
      by (intro parse_chars_plain) simp_all
    then show ?thesis
      unfolding e by (simp only: append_Cons append_Nil)
  next
    case other
    then have e: "escape_char c = bslash # CHR ''u'' # hex4 (of_char c)"
      by (simp add: escape_char_def)
    show ?thesis
      unfolding e using parse_chars_hex4 [of c t] by (simp only: append_Cons)
  qed
qed

lemma parse_chars_escaped:
  "parse_chars (concat (map escape_char s) @ dquote # rest) = Some (s, rest)"
  by (induction s) (simp_all add: parse_chars_escape_char prepend_def)

lemma parse_chars_encode_string:
  "encode_string s @ rest = dquote # concat (map escape_char s) @ dquote # rest"
  by (simp add: encode_string_def)

lemma json_ws_newline_indent: "\<forall>c \<in> set (newline_indent k). json_ws c"
  by (simp add: newline_indent_def json_ws_def newline_def)

lemma skip_ws_append: "\<forall>c \<in> set w. json_ws c \<Longrightarrow> skip_ws (w @ s) = skip_ws s"
  by (simp add: skip_ws_def dropWhile_append2)

lemma skip_ws_Cons: "\<not> json_ws c \<Longrightarrow> skip_ws (c # s) = c # s"
  by (simp add: skip_ws_def)

lemma skip_ws_token: "\<forall>c \<in> set w. json_ws c \<Longrightarrow> \<not> json_ws c \<Longrightarrow> skip_ws (w @ c # s) = c # s"
  by (simp add: skip_ws_append skip_ws_Cons)

lemma punctuation_not_ws:
  "\<not> json_ws dquote" "\<not> json_ws CHR ''[''" "\<not> json_ws CHR '']''" "\<not> json_ws CHR ''{''"
  "\<not> json_ws CHR ''}''" "\<not> json_ws CHR '',''" "\<not> json_ws CHR '':''"
  by (simp_all add: json_ws_def dquote_def)

lemma encode_opener: "\<exists>c t. encode level v = c # t \<and> opener c"
  by (cases v) (simp_all add: opener_def encode_string_def)

lemma opener_facts:
  "opener c \<Longrightarrow> \<not> json_ws c" "opener c \<Longrightarrow> c \<noteq> CHR '']''" "opener c \<Longrightarrow> c \<noteq> CHR ''}''"
  by (auto simp add: opener_def json_ws_def dquote_def)

lemma join_items_Cons:
  "join_items sep (x # xs) = (if xs = [] then x else x @ sep @ join_items sep xs)"
  by (cases xs) simp_all

lemma dict_set_fresh: "k \<notin> fst ` set d \<Longrightarrow> dict_set k v d = d @ [(k, v)]"
  by (induction d) auto

lemma foldl_dict_set:
  "distinct (map fst (acc @ ps)) \<Longrightarrow> foldl (\<lambda>d (k, v). dict_set k v d) acc ps = acc @ ps"
proof (induction ps arbitrary: acc)
  case Nil
  then show ?case by simp
next
  case (Cons p ps)
  obtain k v where p: "p = (k, v)"
    by (cases p)
  from Cons.prems have fresh: "k \<notin> fst ` set acc"
    by (auto simp add: p)
  from Cons.prems have "distinct (map fst ((acc @ [(k, v)]) @ ps))"
    by (simp add: p)
  then have "foldl (\<lambda>d (k, v). dict_set k v d) (acc @ [(k, v)]) ps = (acc @ [(k, v)]) @ ps"
    by (rule Cons.IH)
  then show ?case
    by (simp add: p dict_set_fresh [OF fresh])
qed

lemma dict_of_pairs_distinct: "distinct (map fst d) \<Longrightarrow> dict_of_pairs d = d"
  using foldl_dict_set [of "[]" d] by (simp add: dict_of_pairs_def)

lemma parse_elements_join:
  assumes each: "\<And>x n w rest. x \<in> set xs \<Longrightarrow> need x \<le> n \<Longrightarrow> \<forall>c \<in> set w. json_ws c \<Longrightarrow>
                   parse_value n (w @ encode l1 x @ rest) = Some (x, rest)"
    and "xs \<noteq> []"
    and "sum_list (map (\<lambda>x. Suc (need x)) xs) \<le> n"
    and "\<forall>c \<in> set w. json_ws c"
  shows "parse_elements n
           (w @ join_items (CHR '','' # newline_indent l1) (map (encode l1) xs)
              @ newline_indent l0 @ CHR '']'' # rest) = Some (xs, rest)"
  using assms
proof (induction xs arbitrary: n w)
  case Nil
  then show ?case by simp
next
  case (Cons x xs)
  from Cons.prems(3) obtain m where n: "n = Suc m" and m: "need x + sum_list (map (\<lambda>x. Suc (need x)) xs) \<le> m"
    by (cases n) simp_all
  from m have mx: "need x \<le> m"
    by simp
  have first: "parse_value m (w @ encode l1 x @ r) = Some (x, r)" for r
    using Cons.prems(1) [of x m w r] mx Cons.prems(4) by simp
  show ?case
  proof (cases "xs = []")
    case True
    have "parse_elements (Suc m) (w @ encode l1 x @ newline_indent l0 @ CHR '']'' # rest)
          = Some ([x], rest)"
      by (simp add: first skip_ws_token json_ws_newline_indent punctuation_not_ws)
    then show ?thesis
      by (simp add: n True)
  next
    case False
    from m have ms: "sum_list (map (\<lambda>x. Suc (need x)) xs) \<le> m"
      by simp
    have tail: "parse_elements m
        (newline_indent l1 @ join_items (CHR '','' # newline_indent l1) (map (encode l1) xs)
           @ newline_indent l0 @ CHR '']'' # rest) = Some (xs, rest)"
      using Cons.prems(1) False ms json_ws_newline_indent
      by (intro Cons.IH) simp_all
    have "parse_elements (Suc m)
        (w @ encode l1 x @ CHR '','' # newline_indent l1
           @ join_items (CHR '','' # newline_indent l1) (map (encode l1) xs)
           @ newline_indent l0 @ CHR '']'' # rest) = Some (x # xs, rest)"
      by (simp add: first skip_ws_Cons punctuation_not_ws tail)
    then show ?thesis
      using False by (simp add: n join_items_Cons)
  qed
qed

lemma parse_members_join:
  assumes each: "\<And>k v n w rest. (k, v) \<in> set d \<Longrightarrow> need v \<le> n \<Longrightarrow> \<forall>c \<in> set w. json_ws c \<Longrightarrow>
                   parse_value n (w @ encode l1 v @ rest) = Some (v, rest)"
    and "d \<noteq> []"
    and "sum_list (map (\<lambda>kv. Suc (need (snd kv))) d) \<le> n"
    and "\<forall>c \<in> set w. json_ws c"
  shows "parse_members n
           (w @ join_items (CHR '','' # newline_indent l1)
                  (map (\<lambda>kv. encode_string (fst kv) @ '': '' @ encode l1 (snd kv)) d)
              @ newline_indent l0 @ CHR ''}'' # rest) = Some (d, rest)"
  using assms
proof (induction d arbitrary: n w)
  case Nil
  then show ?case by simp
next
  case (Cons kv d)
  obtain k v where kv: "kv = (k, v)"
    by (cases kv)
  from Cons.prems(3) obtain m where n: "n = Suc m"
    and m: "need v + sum_list (map (\<lambda>kv. Suc (need (snd kv))) d) \<le> m"
    by (cases n) (simp_all add: kv)
  from m have mv: "need v \<le> m"
    by simp
  have sp: "\<forall>c \<in> set '' ''. json_ws c"
    by (simp add: json_ws_def)
  have val: "parse_value m (CHR '' '' # encode l1 v @ r) = Some (v, r)" for r
    using Cons.prems(1) [of k v m "'' ''" r] mv sp by (simp add: kv)
  have key: "skip_ws (w @ encode_string k @ r) = dquote # concat (map escape_char k) @ dquote # r" for r
    using Cons.prems(4) by (simp add: encode_string_def skip_ws_token punctuation_not_ws)
  show ?case
  proof (cases "d = []")
    case True
    have "parse_members (Suc m)
        (w @ encode_string k @ CHR '':'' # CHR '' '' # encode l1 v
           @ newline_indent l0 @ CHR ''}'' # rest) = Some ([(k, v)], rest)"
      by (simp add: key parse_chars_escaped skip_ws_Cons punctuation_not_ws val skip_ws_token
          json_ws_newline_indent)
    then show ?thesis
      by (simp add: n True kv)
  next
    case False
    from m have ms: "sum_list (map (\<lambda>kv. Suc (need (snd kv))) d) \<le> m"
      by simp
    have tail: "parse_members m
        (newline_indent l1 @ join_items (CHR '','' # newline_indent l1)
             (map (\<lambda>kv. encode_string (fst kv) @ '': '' @ encode l1 (snd kv)) d)
           @ newline_indent l0 @ CHR ''}'' # rest) = Some (d, rest)"
    proof (rule Cons.IH)
      show "parse_value n (w @ encode l1 v @ rest) = Some (v, rest)"
        if "(k, v) \<in> set d" "need v \<le> n" "\<forall>c \<in> set w. json_ws c" for k v n w rest
        using Cons.prems(1) [of k v n w rest] that by simp
      show "d \<noteq> []"
        by (rule False)
      show "sum_list (map (\<lambda>kv. Suc (need (snd kv))) d) \<le> m"
        by (rule ms)
      show "\<forall>c \<in> set (newline_indent l1). json_ws c"
        by (rule json_ws_newline_indent)
    qed
    have "parse_members (Suc m)
        (w @ encode_string k @ CHR '':'' # CHR '' '' # encode l1 v @ CHR '','' # newline_indent l1
           @ join_items (CHR '','' # newline_indent l1)
               (map (\<lambda>kv. encode_string (fst kv) @ '': '' @ encode l1 (snd kv)) d)
           @ newline_indent l0 @ CHR ''}'' # rest) = Some ((k, v) # d, rest)"
      using tail by (simp add: key parse_chars_escaped skip_ws_Cons punctuation_not_ws val)
    then show ?thesis
      using False by (simp add: n join_items_Cons kv)
  qed
qed

lemma join_items_opener:
  assumes "xs \<noteq> []" and "\<And>x. x \<in> set xs \<Longrightarrow> \<exists>c t. f x = c # t \<and> opener c"
  shows "\<exists>c t. join_items sep (map f xs) = c # t \<and> opener c"
proof (cases xs)
  case Nil
  with assms(1) show ?thesis by simp
next
  case (Cons x ys)
  then obtain c t where "f x = c # t" "opener c"
    using assms(2) [of x] by auto
  then show ?thesis
    by (cases ys) (simp_all add: Cons)
qed

lemma parse_value_encode:
  "wf_json v \<Longrightarrow> need v \<le> n \<Longrightarrow> \<forall>c \<in> set w. json_ws c \<Longrightarrow>
     parse_value n (w @ encode level v @ rest) = Some (v, rest)"
proof (induction v arbitrary: level n w rest)
  case (JStr s)
  then obtain m where n: "n = Suc m"
    by (cases n) simp_all
  from JStr.prems(3) show ?case
    by (simp add: n encode_string_def skip_ws_token punctuation_not_ws parse_chars_escaped)
next
  case (JList xs)
  then obtain m where n: "n = Suc m" and m: "sum_list (map (\<lambda>x. Suc (need x)) xs) \<le> m"
    by (cases n) simp_all
  show ?case
  proof (cases "xs = []")
    case True
    with JList.prems(3) show ?thesis
      by (simp add: n skip_ws_token skip_ws_Cons punctuation_not_ws dquote_def)
  next
    case False
    define l1 where "l1 = level + 1"
    define body where "body = join_items (CHR '','' # newline_indent l1) (map (encode l1) xs)"
    have enc: "encode level (JList xs) @ rest =
        CHR ''['' # newline_indent l1 @ body @ newline_indent level @ CHR '']'' # rest"
      using False by (simp add: l1_def body_def)
    have each: "parse_value n (w @ encode l1 x @ rest) = Some (x, rest)"
      if "x \<in> set xs" "need x \<le> n" "\<forall>c \<in> set w. json_ws c" for x n w rest
      using JList.IH [of x n w l1 rest] JList.prems(1) that by (simp add: list_all_iff)
    have elems: "parse_elements m
        (newline_indent l1 @ body @ newline_indent level @ CHR '']'' # rest) = Some (xs, rest)"
      unfolding body_def using each False m json_ws_newline_indent by (rule parse_elements_join)
    obtain c t where body: "body = c # t" and c: "opener c"
      unfolding body_def using join_items_opener [OF False, of "encode l1"] encode_opener by blast
    have look: "skip_ws (newline_indent l1 @ body @ r) = c # t @ r" for r
      using c by (simp add: body skip_ws_token json_ws_newline_indent opener_facts)
    have "parse_value (Suc m)
        (w @ CHR ''['' # newline_indent l1 @ body @ newline_indent level @ CHR '']'' # rest)
        = Some (JList xs, rest)"
      using JList.prems(3) c elems
      by (simp add: skip_ws_token punctuation_not_ws look opener_facts dquote_def)
    then show ?thesis
      by (simp only: enc n)
  qed
next
  case (JObj d)
  then obtain m where n: "n = Suc m" and m: "sum_list (map (\<lambda>kv. Suc (need (snd kv))) d) \<le> m"
    by (cases n) simp_all
  from JObj.prems(1) have keys: "dict_of_pairs d = d"
    by (simp add: dict_of_pairs_distinct)
  show ?case
  proof (cases "d = []")
    case True
    with JObj.prems(3) show ?thesis
      by (simp add: n skip_ws_token skip_ws_Cons punctuation_not_ws dquote_def dict_of_pairs_def)
  next
    case False
    define l1 where "l1 = level + 1"
    define item where "item = (\<lambda>kv. encode_string (fst kv) @ '': '' @ encode l1 (snd kv))"
    define body where "body = join_items (CHR '','' # newline_indent l1) (map item d)"
    have enc: "encode level (JObj d) @ rest =
        CHR ''{'' # newline_indent l1 @ body @ newline_indent level @ CHR ''}'' # rest"
      using False by (simp add: l1_def body_def item_def)
    have each: "parse_value n (w @ encode l1 v @ rest) = Some (v, rest)"
      if "(k, v) \<in> set d" "need v \<le> n" "\<forall>c \<in> set w. json_ws c" for k v n w rest
    proof -
      from that(1) JObj.prems(1) have "wf_json v"
        by (auto simp add: list_all_iff)
      moreover have "v \<in> Basic_BNFs.snds (k, v)"
        by simp
      ultimately show ?thesis
        using JObj.IH [of "(k, v)" v n w l1 rest] that by simp
    qed
    have membs: "parse_members m
        (newline_indent l1 @ body @ newline_indent level @ CHR ''}'' # rest) = Some (d, rest)"
      unfolding body_def item_def using each False m json_ws_newline_indent
      by (rule parse_members_join)
    have "\<exists>c t. item kv = c # t \<and> opener c" for kv
      by (simp add: item_def encode_string_def opener_def)
    then obtain c t where body: "body = c # t" and c: "opener c"
      unfolding body_def using join_items_opener [OF False, of item] by blast
    have look: "skip_ws (newline_indent l1 @ body @ r) = c # t @ r" for r
      using c by (simp add: body skip_ws_token json_ws_newline_indent opener_facts)
    have "parse_value (Suc m)
        (w @ CHR ''{'' # newline_indent l1 @ body @ newline_indent level @ CHR ''}'' # rest)
        = Some (JObj d, rest)"
      using JObj.prems(3) c membs
      by (simp add: skip_ws_token punctuation_not_ws look opener_facts dquote_def keys)
    then show ?thesis
      by (simp only: enc n)
  qed
qed

lemma need_items_le:
  assumes "\<And>x. x \<in> set xs \<Longrightarrow> g x \<le> length (f x)" and "sep \<noteq> []"
  shows "sum_list (map (\<lambda>x. Suc (g x)) xs) \<le> Suc (length (join_items sep (map f xs)))"
  using assms(1)
proof (induction xs)
  case Nil
  then show ?case by simp
next
  case (Cons x xs)
  from assms(2) have sep: "1 \<le> length sep"
    by (cases sep) simp_all
  from Cons.prems have x: "g x \<le> length (f x)"
    by simp
  from Cons have IH: "sum_list (map (\<lambda>x. Suc (g x)) xs) \<le> Suc (length (join_items sep (map f xs)))"
    by simp
  show ?case
  proof (cases "xs = []")
    case True
    with x show ?thesis by simp
  next
    case False
    with x IH sep show ?thesis
      by (simp add: join_items_Cons)
  qed
qed

lemma need_le_length: "need v \<le> length (encode level v)"
proof (induction v arbitrary: level)
  case (JStr s)
  show ?case
    by (simp add: encode_string_def)
next
  case (JList xs)
  have "sum_list (map (\<lambda>x. Suc (need x)) xs)
        \<le> Suc (length (join_items (CHR '','' # newline_indent (level + 1)) (map (encode (level + 1)) xs)))"
    by (rule need_items_le) (simp_all add: JList.IH)
  then show ?case
    by (simp add: newline_indent_def)
next
  case (JObj d)
  have "sum_list (map (\<lambda>kv. Suc (need (snd kv))) d)
        \<le> Suc (length (join_items (CHR '','' # newline_indent (level + 1))
                 (map (\<lambda>kv. encode_string (fst kv) @ '': '' @ encode (level + 1) (snd kv)) d)))"
  proof (rule need_items_le)
    fix kv
    assume kv: "kv \<in> set d"
    obtain k v where p: "kv = (k, v)"
      by (cases kv)
    have "v \<in> Basic_BNFs.snds (k, v)"
      by simp
    with kv have "need v \<le> length (encode (level + 1) v)"
      unfolding p by (rule JObj.IH)
    then have "need (snd kv) \<le> length (encode (level + 1) (snd kv))"
      by (simp add: p)
    then show "need (snd kv) \<le> length (encode_string (fst kv) @ '': '' @ encode (level + 1) (snd kv))"
      by simp
  qed simp
  then show ?case
    by (simp add: newline_indent_def)
qed

lemma json_loads_dumps: "wf_json v \<Longrightarrow> json_loads (json_dumps v) = Some v"
proof -
  assume wf: "wf_json v"
  have "need v \<le> length (encode 0 v)"
    by (rule need_le_length)
  with wf have "parse_value (length (encode 0 v)) ([] @ encode 0 v @ []) = Some (v, [])"
    by (intro parse_value_encode) simp_all
  then show ?thesis
    by (simp add: json_loads_def json_dumps_def skip_ws_def)
qed

lemma wf_generate_extra: "wf_json (generate_extra sz)"
proof -
  have none: "wf_json (generate_extra ''none'')"
    and small: "wf_json (generate_extra ''small'')"
    and medium: "wf_json (generate_extra ''medium'')"
    and large: "wf_json (generate_extra ''large'')"
    by code_simp+
  consider "sz = ''none''" | "sz = ''small''" | "sz = ''medium''" | "sz = ''large''"
    | "sz \<notin> set [''none'', ''small'', ''medium'', ''large'']"
    by auto
  then show ?thesis
  proof cases
    case 5
    then show ?thesis
      by (simp add: generate_extra_def)
  qed (simp_all only: none small medium large)
qed

lemma generate_asset_payload_shape:
  "\<exists>checksum display.
     fst (generate_asset_payload extra_size g) =
       JObj [(''checksum'', JStr checksum), (''display'', JStr display),
             (''extra'', generate_extra extra_size)]"
  by (simp add: generate_asset_payload_def split_beta)

lemma asset_payloads_shape:
  "\<forall>a \<in> set (fst (asset_payloads k extra_size g)).
     \<exists>checksum display.
       a = JObj [(''checksum'', JStr checksum), (''display'', JStr display),
                 (''extra'', generate_extra extra_size)]"
proof (induction k arbitrary: g)
  case 0
  show ?case by simp
next
  case (Suc k)
  show ?case
    using generate_asset_payload_shape [of extra_size g]
      Suc [of "snd (generate_asset_payload extra_size g)"]
    by (auto simp add: split_beta)
qed

lemma wf_generate_batch_payload: "wf_json (fst (generate_batch_payload n extra_size g))"
proof -
  have "list_all wf_json (fst (asset_payloads k extra_size g))" for k
    using asset_payloads_shape [of k extra_size g] wf_generate_extra [of extra_size]
    by (auto simp add: list_all_iff)
  then show ?thesis
    by (simp add: generate_batch_payload_def split_beta)
qed

text \<open>
  Claim C7. Reading the serialized text back gives the generated batch itself: a document
  whose \<open>assets\<close> has as many records as were asked for, each with the three keys
  \<open>checksum\<close>, \<open>display\<close> (strings) and \<open>extra\<close> (the structure of its size). More
  generally, writing followed by reading is the identity on every value of the data model
  (strings, lists and dictionaries with distinct keys).
\<close>

theorem json_round_trip:
  assumes "0 \<le> n"
  shows "json_loads (json_dumps (fst (generate_batch_payload n extra_size g)))
           = Some (fst (generate_batch_payload n extra_size g)) \<and>
         (\<exists>assets.
            json_loads (json_dumps (fst (generate_batch_payload n extra_size g)))
              = Some (JObj [(''assets'', JList assets)]) \<and>
            int (length assets) = n \<and>
            (\<forall>a \<in> set assets. \<exists>checksum display.
               a = JObj [(''checksum'', JStr checksum), (''display'', JStr display),
                         (''extra'', generate_extra extra_size)])) \<and>
         (\<forall>v. wf_json v \<longrightarrow> json_loads (json_dumps v) = Some v)"
proof -
  let ?assets = "fst (asset_payloads (nat n) extra_size g)"
  have doc: "fst (generate_batch_payload n extra_size g) = JObj [(''assets'', JList ?assets)]"
    by (simp add: generate_batch_payload_def py_range_def split_beta)
  have same: "json_loads (json_dumps (fst (generate_batch_payload n extra_size g)))
      = Some (fst (generate_batch_payload n extra_size g))"
    using wf_generate_batch_payload by (rule json_loads_dumps)
  have count: "int (length ?assets) = n"
    using assms by (simp add: length_asset_payloads)
  have shape: "\<forall>a \<in> set ?assets. \<exists>checksum display.
      a = JObj [(''checksum'', JStr checksum), (''display'', JStr display),
                (''extra'', generate_extra extra_size)]"
    by (rule asset_payloads_shape)
  have "json_loads (json_dumps (fst (generate_batch_payload n extra_size g)))
      = Some (JObj [(''assets'', JList ?assets)])"
    using same by (simp only: doc)
  with count shape have "\<exists>assets.
      json_loads (json_dumps (fst (generate_batch_payload n extra_size g)))
        = Some (JObj [(''assets'', JList assets)]) \<and>
      int (length assets) = n \<and>
      (\<forall>a \<in> set assets. \<exists>checksum display.
         a = JObj [(''checksum'', JStr checksum), (''display'', JStr display),
                   (''extra'', generate_extra extra_size)])"
    by blast
  with same json_loads_dumps show ?thesis
    by blast
qed

theorem json_round_trip_witness:
  "(0 :: int) \<le> 1 \<and>
   json_loads (json_dumps (fst (generate_batch_payload 1 ''small'' (\<lambda>i. 7 * i + 3))))
     = Some (fst (generate_batch_payload 1 ''small'' (\<lambda>i. 7 * i + 3))) \<and>
   wf_json (JObj [(''assets'', JList [])]) \<and>
   json_loads (json_dumps (JObj [(''assets'', JList [])])) = Some (JObj [(''assets'', JList [])])"
proof -
  have h: "(0 :: int) \<le> 1"
    by simp
  have wf: "wf_json (JObj [(''assets'', JList [])])"
    by simp
  from json_round_trip [OF h, of "''small''" "\<lambda>i. 7 * i + 3"] h wf show ?thesis
    by blast
qed

end
